theory Spec2Isabelle
  imports Main "HOL-Library.Word" "HOL-Library.List_Lexorder" "HOL-Library.Product_Lexorder"
    "HOL-Library.Multiset"
begin

section \<open>Data model of the hint store\<close>

text \<open>
  A blob is a list of bytes. Blobs are compared byte-lexicographically (unsigned bytes, a
  proper prefix is smaller), which is the list order of \<^theory_text>\<open>List_Lexorder\<close> over the
  unsigned order of \<^typ>\<open>8 word\<close>.

  The table \<open>hints(coin_id blob, hint blob, UNIQUE (coin_id, hint))\<close> is the list of its
  rows in insertion (rowid) order. It has two indexes: \<open>hint_index\<close> on the hint, whose
  entries are in hint order and, for one hint, in insertion order; and the index of the
  uniqueness constraint, \<open>sqlite_autoindex_hints_1\<close>, whose entries are in
  \<open>(coin_id, hint)\<close> order, pairs being compared lexicographically.
\<close>

type_synonym bytes = "8 word list"
type_synonym row = "bytes \<times> bytes"
type_synonym db = "row list"

datatype error =
    Value_error
  | Too_many_variables
  | Unpack_error

text \<open>\<open>bytes32(b)\<close> raises unless \<open>b\<close> has exactly 32 bytes.\<close>

definition bytes32 :: "bytes \<Rightarrow> error + bytes" where
  "bytes32 b = (if length b = 32 then Inr b else Inl Value_error)"

text \<open>The list comprehension \<open>[bytes32(row[0]) for row in rows]\<close>.\<close>

fun bytes32_all :: "bytes list \<Rightarrow> error + bytes list" where
  "bytes32_all [] = Inr []"
| "bytes32_all (b # bs) =
     (case bytes32 b of
        Inl e \<Rightarrow> Inl e
      | Inr x \<Rightarrow> (case bytes32_all bs of Inl e \<Rightarrow> Inl e | Inr xs \<Rightarrow> Inr (x # xs)))"

section \<open>The storage backend\<close>

text \<open>
  Modelled from the spec: the storage backend behind \<open>DBWrapper2\<close> is not part of the
  sources. It has a fixed maximum number of bound parameters per statement (\<open>vmax\<close>); a
  statement that binds more parameters fails, and the failure reaches the caller
  unchanged. \<open>sql_run vmax n res\<close> is the outcome of a statement with \<open>n\<close> bound
  parameters whose rows would be \<open>res\<close>.

  A statement that looks rows up by hint answers from \<open>hint_index\<close> and returns them in
  the order of that index; a statement that looks rows up by coin id answers from
  \<open>sqlite_autoindex_hints_1\<close> and returns them in the order of that one. \<open>ORDER BY\<close>
  overrides both. \<open>LIMIT n\<close> keeps the first \<open>n\<close> rows of that order, and all of them
  when \<open>n\<close> is negative.
\<close>

definition sql_run :: "nat \<Rightarrow> nat \<Rightarrow> 'a \<Rightarrow> error + 'a" where
  "sql_run vmax n res = (if vmax < n then Inl Too_many_variables else Inr res)"

definition limit_rows :: "int \<Rightarrow> 'a list \<Rightarrow> 'a list" where
  "limit_rows n rows = (if n < 0 then rows else take (nat n) rows)"

text \<open>\<open>SELECT coin_id FROM hints WHERE hint = ?\<close>: the rows of one hint, in insertion order.\<close>

definition select_coin_where_hint_eq :: "db \<Rightarrow> bytes \<Rightarrow> bytes list" where
  "select_coin_where_hint_eq d h = map fst (filter (\<lambda>r. snd r = h) d)"

text \<open>
  \<open>SELECT coin_id FROM hints [INDEXED BY hint_index] WHERE hint IN (?, ..., ?)\<close>: in hint
  order, the rows of one hint in insertion order (\<open>sort_key\<close> is stable).
\<close>

definition select_coin_where_hint_in :: "db \<Rightarrow> bytes list \<Rightarrow> bytes list" where
  "select_coin_where_hint_in d hs = map fst (sort_key snd (filter (\<lambda>r. snd r \<in> set hs) d))"

text \<open>\<open>SELECT COUNT(*) FROM hints WHERE hint IN (?, ..., ?)\<close>\<close>

definition count_where_hint_in :: "db \<Rightarrow> bytes list \<Rightarrow> nat" where
  "count_where_hint_in d hs = length (filter (\<lambda>r. snd r \<in> set hs) d)"

text \<open>
  \<open>SELECT coin_id FROM hints WHERE hint IN (?, ..., ?) [AND coin_id > ?]
  ORDER BY coin_id LIMIT n\<close>
\<close>

definition after_cursor :: "bytes option \<Rightarrow> bytes \<Rightarrow> bool" where
  "after_cursor last_id c = (case last_id of None \<Rightarrow> True | Some l \<Rightarrow> l < c)"

definition select_coin_page :: "db \<Rightarrow> bytes list \<Rightarrow> bytes option \<Rightarrow> int \<Rightarrow> bytes list" where
  "select_coin_page d hs last_id n =
     limit_rows n
       (sort (map fst (filter (\<lambda>r. snd r \<in> set hs \<and> after_cursor last_id (fst r)) d)))"

text \<open>
  \<open>SELECT coin_id, hint FROM hints INDEXED BY sqlite_autoindex_hints_1
  WHERE coin_id IN (?, ..., ?)\<close>: in \<open>(coin_id, hint)\<close> order.
\<close>

definition select_row_where_coin_in :: "db \<Rightarrow> bytes list \<Rightarrow> row list" where
  "select_row_where_coin_in d cs = sort (filter (\<lambda>r. fst r \<in> set cs) d)"

text \<open>\<open>SELECT hint FROM hints WHERE coin_id IN (?, ..., ?)\<close>: the same rows, their hints.\<close>

definition select_hint_where_coin_in :: "db \<Rightarrow> bytes list \<Rightarrow> bytes list" where
  "select_hint_where_coin_in d cs = map snd (select_row_where_coin_in d cs)"

section \<open>Batching\<close>

text \<open>
  Modelled from the spec: \<open>chia.util.batches.to_batches\<close> is not part of the sources.
  It partitions the keys, in their iteration order, into chunks of at most
  \<open>batch_size\<close> entries (all but the last one full), yields no chunk for an empty
  input, and fails fast on a batch size that is not positive.
\<close>

function batches_of :: "nat \<Rightarrow> 'a list \<Rightarrow> 'a list list" where
  "batches_of n xs =
     (if n = 0 \<or> xs = [] then [] else take n xs # batches_of n (drop n xs))"
  by pat_completeness auto
termination
  by (relation "measure (\<lambda>(n, xs). length xs)") auto

declare batches_of.simps [simp del]

definition to_batches :: "'a list \<Rightarrow> nat \<Rightarrow> error + 'a list list" where
  "to_batches to_split batch_size =
     (if batch_size \<le> 0 then Inl Value_error else Inr (batches_of batch_size to_split))"

section \<open>HintStore\<close>

text \<open>
  Every operation takes the backend's parameter limit \<open>vmax\<close> and the table \<open>d\<close> in
  place of \<open>self.db_wrapper\<close>. The imported constant \<open>SQLITE_MAX_VARIABLE_NUMBER\<close> is
  not part of the sources and is the parameter \<open>mvn\<close>. \<open>max_items\<close> and \<open>page_size\<close>
  are Python integers.
\<close>

text \<open>\<open>get_coin_ids\<close>: \<open>SELECT coin_id from hints WHERE hint=? LIMIT ?\<close>, two parameters.\<close>

definition get_coin_ids :: "nat \<Rightarrow> db \<Rightarrow> bytes \<Rightarrow> int \<Rightarrow> error + bytes list" where
  "get_coin_ids vmax d hint max_items =
     (case sql_run vmax 2 (limit_rows max_items (select_coin_where_hint_eq d hint)) of
        Inl e \<Rightarrow> Inl e
      | Inr rows \<Rightarrow> bytes32_all rows)"

text \<open>\<open>get_coin_ids_by_hints\<close>: one statement binding every hint.\<close>

definition get_coin_ids_by_hints :: "nat \<Rightarrow> db \<Rightarrow> bytes list \<Rightarrow> error + bytes list" where
  "get_coin_ids_by_hints vmax d hints =
     (if length hints = 0 then Inr []
      else sql_run vmax (length hints) (select_coin_where_hint_in d hints))"

text \<open>
  \<open>get_coin_ids_by_hints_paginated\<close>. The value returned for no hints is the bare list
  \<open>[]\<close>; every other return is the triple.
\<close>

datatype page_result =
    Bare_list "bytes list"
  | Page_tuple "bytes list" "bytes option" "nat option"

definition get_coin_ids_by_hints_paginated ::
  "nat \<Rightarrow> db \<Rightarrow> bytes list \<Rightarrow> int \<Rightarrow> bytes option \<Rightarrow> error + page_result" where
  "get_coin_ids_by_hints_paginated vmax d hints page_size last_id =
     (if length hints = 0 then Inr (Bare_list [])
      else
        let params = hints @ (case last_id of None \<Rightarrow> [] | Some l \<Rightarrow> [l]) in
        (case (if last_id = None
               then map_sum id Some (sql_run vmax (length hints) (count_where_hint_in d hints))
               else Inr None) of
           Inl e \<Rightarrow> Inl e
         | Inr total_coin_count \<Rightarrow>
             (case sql_run vmax (length params) (select_coin_page d hints last_id page_size) of
                Inl e \<Rightarrow> Inl e
              | Inr coin_ids \<Rightarrow>
                  let next_last_id =
                        (if length coin_ids > 0 then Some (coin_ids ! (length coin_ids - 1))
                         else last_id)
                  in Inr (Page_tuple coin_ids next_last_id total_coin_count))))"

text \<open>
  \<open>get_coin_ids_multi\<close>: one statement per batch, binding the batch and \<open>max_items\<close>.
\<close>

fun multi_loop :: "nat \<Rightarrow> db \<Rightarrow> int \<Rightarrow> bytes list list \<Rightarrow> bytes list \<Rightarrow> error + bytes list" where
  "multi_loop vmax d max_items [] coin_ids = Inr coin_ids"
| "multi_loop vmax d max_items (batch # rest) coin_ids =
     (case sql_run vmax (length batch + 1)
             (limit_rows max_items (select_coin_where_hint_in d batch)) of
        Inl e \<Rightarrow> Inl e
      | Inr rows \<Rightarrow>
          (case bytes32_all rows of
             Inl e \<Rightarrow> Inl e
           | Inr ids \<Rightarrow> multi_loop vmax d max_items rest (coin_ids @ ids)))"

definition get_coin_ids_multi ::
  "nat \<Rightarrow> nat \<Rightarrow> db \<Rightarrow> bytes list \<Rightarrow> int \<Rightarrow> error + bytes list" where
  "get_coin_ids_multi mvn vmax d hints max_items =
     (case to_batches hints mvn of
        Inl e \<Rightarrow> Inl e
      | Inr batches \<Rightarrow> multi_loop vmax d max_items batches [])"

text \<open>\<open>get_hints\<close>: one statement per batch; rows whose hint is not 32 bytes are dropped.\<close>

fun hints_loop :: "nat \<Rightarrow> db \<Rightarrow> bytes list list \<Rightarrow> bytes list \<Rightarrow> error + bytes list" where
  "hints_loop vmax d [] hints = Inr hints"
| "hints_loop vmax d (batch # rest) hints =
     (case sql_run vmax (length batch) (select_hint_where_coin_in d batch) of
        Inl e \<Rightarrow> Inl e
      | Inr rows \<Rightarrow>
          (case bytes32_all (filter (\<lambda>h. length h = 32) rows) of
             Inl e \<Rightarrow> Inl e
           | Inr hs \<Rightarrow> hints_loop vmax d rest (hints @ hs)))"

definition get_hints :: "nat \<Rightarrow> nat \<Rightarrow> db \<Rightarrow> bytes list \<Rightarrow> error + bytes list" where
  "get_hints mvn vmax d coin_ids =
     (case to_batches coin_ids mvn of
        Inl e \<Rightarrow> Inl e
      | Inr batches \<Rightarrow> hints_loop vmax d batches [])"

text \<open>\<open>add_hints\<close>: \<open>INSERT OR IGNORE\<close> of every pair, in order; returns the new table.\<close>

definition insert_or_ignore :: "db \<Rightarrow> row \<Rightarrow> db" where
  "insert_or_ignore d r = (if r \<in> set d then d else d @ [r])"

definition add_hints :: "db \<Rightarrow> row list \<Rightarrow> db" where
  "add_hints d coin_hint_list =
     (if length coin_hint_list = 0 then d else foldl insert_or_ignore d coin_hint_list)"

text \<open>
  \<open>get_hints_for_coin_ids\<close>. The value returned for no coin ids is the list \<open>[]\<close>;
  otherwise the dict built row by row, a later row overwriting an earlier one.
\<close>

datatype hint_dict_result =
    Empty_list
  | Dict "bytes \<rightharpoonup> bytes"

definition dict_of_rows :: "row list \<Rightarrow> (bytes \<rightharpoonup> bytes)" where
  "dict_of_rows rows = foldl (\<lambda>m r. m(fst r \<mapsto> snd r)) Map.empty rows"

definition get_hints_for_coin_ids :: "nat \<Rightarrow> db \<Rightarrow> bytes list \<Rightarrow> error + hint_dict_result" where
  "get_hints_for_coin_ids vmax d coin_ids =
     (if length coin_ids = 0 then Inr Empty_list
      else
        (case sql_run vmax (length coin_ids) (select_row_where_coin_in d coin_ids) of
           Inl e \<Rightarrow> Inl e
         | Inr rows \<Rightarrow> Inr (Dict (dict_of_rows rows))))"

text \<open>\<open>count_hints\<close>: \<open>select count(*) from hints\<close>, no parameter.\<close>

definition count_hints :: "db \<Rightarrow> nat" where
  "count_hints d = length d"

section \<open>Paging through a result\<close>

text \<open>
  Modelled from the spec: the caller of \<open>get_coin_ids_by_hints_paginated\<close> is not part
  of the sources. It starts without a cursor, unpacks the triple, passes each call's
  \<open>next_cursor\<close> to the next call, and stops at the first page with fewer than
  \<open>page_size\<close> entries. A bare list cannot be unpacked into the triple. The loop has
  fuel; running out of it is \<open>None\<close>.
\<close>

fun collect_pages ::
  "nat \<Rightarrow> nat \<Rightarrow> db \<Rightarrow> bytes list \<Rightarrow> int \<Rightarrow> bytes option \<Rightarrow> (error + bytes list list) option" where
  "collect_pages 0 vmax d hints page_size cursor = None"
| "collect_pages (Suc fuel) vmax d hints page_size cursor =
     (case get_coin_ids_by_hints_paginated vmax d hints page_size cursor of
        Inl e \<Rightarrow> Some (Inl e)
      | Inr (Bare_list xs) \<Rightarrow> Some (Inl Unpack_error)
      | Inr (Page_tuple coin_ids next_cursor total_count) \<Rightarrow>
          if int (length coin_ids) < page_size then Some (Inr [coin_ids])
          else (case collect_pages fuel vmax d hints page_size next_cursor of
                  None \<Rightarrow> None
                | Some (Inl e) \<Rightarrow> Some (Inl e)
                | Some (Inr pages) \<Rightarrow> Some (Inr (coin_ids # pages))))"

text \<open>Every entry of an earlier page is below every entry of a later page.\<close>

fun pages_ascending :: "'a::linorder list list \<Rightarrow> bool" where
  "pages_ascending [] = True"
| "pages_ascending (p # ps) =
     ((\<forall>x\<in>set p. \<forall>y\<in>set (concat ps). x < y) \<and> pages_ascending ps)"

text \<open>The item ids of a lookup that returned, none for one that failed.\<close>

definition ids_of :: "error + bytes list \<Rightarrow> bytes list" where
  "ids_of r = (case r of Inl e \<Rightarrow> [] | Inr xs \<Rightarrow> xs)"

section \<open>Sample identifiers and hints\<close>

definition id1 :: bytes where "id1 = replicate 31 0 @ [1]"
definition id2 :: bytes where "id2 = replicate 31 0 @ [2]"
definition id3 :: bytes where "id3 = replicate 31 0 @ [3]"
definition hintA :: bytes where "hintA = replicate 31 170 @ [1]"
definition hintB :: bytes where "hintB = replicate 31 170 @ [2]"
definition hintC :: bytes where "hintC = replicate 31 170 @ [3]"
definition short_hint :: bytes where "short_hint = replicate 10 7"

text \<open>The \<open>n\<close>-th of a family of distinct 32-byte hints and item ids, \<open>n < 65536\<close>.\<close>

definition hint_no :: "nat \<Rightarrow> bytes" where
  "hint_no n = replicate 30 170 @ [of_nat (n div 256), of_nat (n mod 256)]"

definition coin_no :: "nat \<Rightarrow> bytes" where
  "coin_no n = replicate 30 0 @ [of_nat (n div 256), of_nat (n mod 256)]"

section \<open>Batches and loops\<close>

lemma batches_of_concat: "0 < n \<Longrightarrow> concat (batches_of n xs) = xs"
proof (induction n xs rule: batches_of.induct)
  case (1 n xs)
  then show ?case by (subst batches_of.simps) auto
qed

lemma batches_of_bounded: "\<forall>b\<in>set (batches_of n xs). length b \<le> n \<and> b \<noteq> []"
proof (induction n xs rule: batches_of.induct)
  case (1 n xs)
  show ?case
  proof (cases "n = 0 \<or> xs = []")
    case True
    then show ?thesis by (subst batches_of.simps) simp
  next
    case False
    then have "\<forall>b\<in>set (batches_of n (drop n xs)). length b \<le> n \<and> b \<noteq> []"
      by (rule "1.IH")
    then show ?thesis using False by (subst batches_of.simps) auto
  qed
qed

lemma batches_of_length: "0 < n \<Longrightarrow> length (batches_of n xs) = (length xs + n - 1) div n"
proof (induction n xs rule: batches_of.induct)
  case (1 n xs)
  show ?case
  proof (cases "xs = []")
    case True
    then show ?thesis using "1.prems" by (subst batches_of.simps) simp
  next
    case False
    have ih: "length (batches_of n (drop n xs)) = (length (drop n xs) + n - 1) div n"
      using "1.IH" False "1.prems" by simp
    obtain k where k: "length xs = Suc k" using False by (cases xs) auto
    show ?thesis
    proof (cases "length xs \<le> n")
      case True
      have "n * 1 \<le> length xs + n - 1" "length xs + n - 1 < n * Suc 1"
        using True "1.prems" unfolding k by simp_all
      then have "(length xs + n - 1) div n = 1"
        by (rule div_nat_eqI)
      then show ?thesis using True False "1.prems" ih
        by (subst batches_of.simps) simp
    next
      case gt: False
      then have "length xs + n - 1 = (length xs - n + n - 1) + n" unfolding k by simp
      then have "(length xs + n - 1) div n = Suc ((length xs - n + n - 1) div n)"
        using "1.prems" by (metis Suc_eq_plus1 div_add_self2 less_numeral_extra(3))
      then show ?thesis using False "1.prems" ih
        by (subst batches_of.simps) simp
    qed
  qed
qed

lemma bytes32_all_ok: "\<forall>x\<in>set xs. length x = 32 \<Longrightarrow> bytes32_all xs = Inr xs"
  by (induction xs) (auto simp: bytes32_def)

lemma hints_loop_ok:
  "\<forall>b\<in>set bs. length b \<le> vmax \<Longrightarrow>
   hints_loop vmax d bs acc =
     Inr (acc @ concat (map (\<lambda>b. filter (\<lambda>h. length h = 32) (select_hint_where_coin_in d b)) bs))"
  by (induction bs arbitrary: acc) (auto simp: sql_run_def bytes32_all_ok)

lemma set_limit_rows: "set (limit_rows n xs) \<subseteq> set xs"
  by (auto simp: limit_rows_def dest: in_set_takeD)

lemma length_limit_rows: "0 \<le> n \<Longrightarrow> int (length (limit_rows n xs)) \<le> n"
  by (simp add: limit_rows_def)

lemma limit_rows_all: "n < 0 \<or> int (length xs) \<le> n \<Longrightarrow> limit_rows n xs = xs"
  by (auto simp: limit_rows_def)

lemma set_select_coin_where_hint_in:
  "set (select_coin_where_hint_in d hs) = fst ` {r \<in> set d. snd r \<in> set hs}"
  by (simp add: select_coin_where_hint_in_def)

lemma multi_loop_ok:
  "\<forall>b\<in>set bs. length b < vmax \<Longrightarrow> \<forall>r\<in>set d. length (fst r) = 32 \<Longrightarrow>
   multi_loop vmax d m bs acc =
     Inr (acc @ concat (map (\<lambda>b. limit_rows m (select_coin_where_hint_in d b)) bs))"
proof (induction bs arbitrary: acc)
  case Nil
  then show ?case by simp
next
  case (Cons b bs)
  have "\<forall>x\<in>set (limit_rows m (select_coin_where_hint_in d b)). length x = 32"
    using Cons.prems(2) set_limit_rows [of m "select_coin_where_hint_in d b"]
    by (auto simp: set_select_coin_where_hint_in)
  then have "bytes32_all (limit_rows m (select_coin_where_hint_in d b))
               = Inr (limit_rows m (select_coin_where_hint_in d b))"
    by (rule bytes32_all_ok)
  then show ?case using Cons by (simp add: sql_run_def)
qed

section \<open>Insertion\<close>

lemma foldl_insert_or_ignore_present:
  "set rs \<subseteq> set d \<Longrightarrow> foldl insert_or_ignore d rs = d"
  by (induction rs) (auto simp: insert_or_ignore_def)

lemma set_foldl_insert_or_ignore:
  "set (foldl insert_or_ignore d rs) = set d \<union> set rs"
  by (induction rs arbitrary: d) (auto simp: insert_or_ignore_def)

lemma add_hints_set: "set (add_hints d rs) = set d \<union> set rs"
  by (simp add: add_hints_def set_foldl_insert_or_ignore)

lemma add_hints_present: "set rs \<subseteq> set d \<Longrightarrow> add_hints d rs = d"
  by (simp add: add_hints_def foldl_insert_or_ignore_present)

lemma add_hints_skip:
  "p \<in> set d \<Longrightarrow> add_hints d (xs @ p # ys) = add_hints d (xs @ ys)"
proof -
  assume p: "p \<in> set d"
  have "p \<in> set (foldl insert_or_ignore d xs)"
    using p by (simp add: set_foldl_insert_or_ignore)
  then have "insert_or_ignore (foldl insert_or_ignore d xs) p = foldl insert_or_ignore d xs"
    by (simp add: insert_or_ignore_def)
  then show ?thesis
    by (simp add: add_hints_def)
qed

text \<open>
  C8. Insert is idempotent on the stored record set: a pair of the batch that is already
  stored is skipped (the insert behaves as if the pair were not in the batch, and it
  always returns a table), and inserting the same pair a second time leaves
  \<open>count_hints\<close> unchanged.
\<close>

theorem add_hints_idempotent:
  "(p \<in> set d \<longrightarrow> add_hints d (xs @ p # ys) = add_hints d (xs @ ys))
   \<and> count_hints (add_hints (add_hints d [p]) [p]) = count_hints (add_hints d [p])
   \<and> add_hints (add_hints d rs) rs = add_hints d rs"
proof (intro conjI impI)
  assume "p \<in> set d"
  then show "add_hints d (xs @ p # ys) = add_hints d (xs @ ys)"
    by (rule add_hints_skip)
next
  have "add_hints (add_hints d [p]) [p] = add_hints d [p]"
    by (rule add_hints_present) (simp add: add_hints_set)
  then show "count_hints (add_hints (add_hints d [p]) [p]) = count_hints (add_hints d [p])"
    by simp
next
  show "add_hints (add_hints d rs) rs = add_hints d rs"
    by (rule add_hints_present) (simp add: add_hints_set)
qed

theorem add_hints_idempotent_witness:
  "(id1, hintA) \<in> set [(id1, hintA)]
   \<and> add_hints [(id1, hintA)] ([(id2, hintB)] @ (id1, hintA) # []) = [(id1, hintA), (id2, hintB)]
   \<and> count_hints (add_hints (add_hints [] [(id1, hintA)]) [(id1, hintA)]) = 1"
  using add_hints_idempotent [of "(id1, hintA)" "[(id1, hintA)]" "[(id2, hintB)]" "[]" "[]"]
  by (simp add: add_hints_def insert_or_ignore_def count_hints_def id1_def id2_def hintA_def hintB_def)

section \<open>Comparing blobs with a common prefix\<close>

lemma replicate_append_less:
  "(replicate n (x::'a::linorder) @ ys < replicate n x @ zs) = (ys < zs)"
  by (induction n) simp_all

lemma replicate_append_le:
  "(replicate n (x::'a::linorder) @ ys \<le> replicate n x @ zs) = (ys \<le> zs)"
  by (induction n) simp_all

lemmas blob_order = replicate_append_less replicate_append_le

section \<open>Unbatched multi-hint lookup\<close>

lemma get_coin_ids_by_hints_over_limit:
  "vmax < length hints \<Longrightarrow> get_coin_ids_by_hints vmax d hints = Inl Too_many_variables"
  by (auto simp: get_coin_ids_by_hints_def sql_run_def)

text \<open>
  C2. With 5000 distinct hints and a backend parameter limit of 999,
  \<open>get_coin_ids_by_hints\<close> binds all 5000 hints in one statement, which the backend
  rejects: nothing is chunked and no row is returned.
\<close>

theorem get_coin_ids_by_hints_5000:
  "get_coin_ids_by_hints 999 (map (\<lambda>n. (coin_no n, hint_no n)) [0..<5000]) (map hint_no [0..<5000])
     = Inl Too_many_variables"
  by (rule get_coin_ids_by_hints_over_limit) simp

text \<open>
  C6. For no hints, \<open>get_coin_ids_by_hints_paginated\<close> returns at once, whatever the
  table, the parameter limit, the page size and the cursor; the value is the bare empty
  list, not the triple of an empty page, no cursor and no count.
\<close>

theorem paginated_no_hints:
  "get_coin_ids_by_hints_paginated vmax d [] page_size last_id = Inr (Bare_list [])
   \<and> get_coin_ids_by_hints_paginated vmax d [] page_size last_id \<noteq> Inr (Page_tuple [] None None)"
  by (simp add: get_coin_ids_by_hints_paginated_def)

section \<open>Reverse lookup\<close>

lemma get_hints_eq:
  assumes "0 < mvn" "mvn \<le> vmax"
  shows "get_hints mvn vmax d coin_ids =
     Inr (concat (map (\<lambda>b. filter (\<lambda>h. length h = 32) (select_hint_where_coin_in d b))
            (batches_of mvn coin_ids)))"
proof -
  have "\<forall>b\<in>set (batches_of mvn coin_ids). length b \<le> vmax"
    using batches_of_bounded [of mvn coin_ids] assms(2) by auto
  then show ?thesis
    using assms(1) by (simp add: get_hints_def to_batches_def hints_loop_ok)
qed

lemma batches_of_Union: "0 < n \<Longrightarrow> \<Union> (set ` set (batches_of n xs)) = set xs"
  using batches_of_concat [of n xs] by (metis set_concat)

text \<open>
  C7. \<open>get_hints\<close> returns exactly the stored hints of the given item ids that are 32
  bytes long, so a stored hint of any other length is excluded, while \<open>count_hints\<close>
  is the number of all rows, whatever the length of their hints.
\<close>

theorem get_hints_drops_other_lengths:
  assumes "0 < mvn" "mvn \<le> vmax"
  shows "\<exists>hs. get_hints mvn vmax d coin_ids = Inr hs
           \<and> set hs = {h. length h = 32 \<and> (\<exists>c\<in>set coin_ids. (c, h) \<in> set d)}
           \<and> (\<forall>r\<in>set d. length (snd r) \<noteq> 32 \<longrightarrow> snd r \<notin> set hs)
           \<and> count_hints d = length d"
proof -
  let ?hs = "concat (map (\<lambda>b. filter (\<lambda>h. length h = 32) (select_hint_where_coin_in d b))
            (batches_of mvn coin_ids))"
  have eq: "get_hints mvn vmax d coin_ids = Inr ?hs"
    using assms by (rule get_hints_eq)
  have "set ?hs = {h. length h = 32 \<and> (\<exists>b\<in>set (batches_of mvn coin_ids). \<exists>c\<in>set b. (c, h) \<in> set d)}"
    by (force simp: select_hint_where_coin_in_def select_row_where_coin_in_def)
  also have "\<dots> = {h. length h = 32 \<and> (\<exists>c\<in>set coin_ids. (c, h) \<in> set d)}"
    using batches_of_Union [OF assms(1), of coin_ids] by blast
  finally have s: "set ?hs = {h. length h = 32 \<and> (\<exists>c\<in>set coin_ids. (c, h) \<in> set d)}" .
  have "\<forall>r\<in>set d. length (snd r) \<noteq> 32 \<longrightarrow> snd r \<notin> set ?hs"
    unfolding s by simp
  with eq s show ?thesis
    by (simp add: count_hints_def)
qed

theorem get_hints_drops_other_lengths_witness:
  "(0::nat) < 900 \<and> (900::nat) \<le> 999
   \<and> get_hints 900 999 (add_hints [] [(id2, short_hint)]) [id2] = Inr []
   \<and> count_hints (add_hints [] [(id2, short_hint)]) = 1"
  using get_hints_drops_other_lengths [of 900 999 "add_hints [] [(id2, short_hint)]" "[id2]"]
  by (simp add: get_hints_def to_batches_def batches_of.simps sql_run_def
      select_hint_where_coin_in_def select_row_where_coin_in_def add_hints_def
      insert_or_ignore_def count_hints_def id2_def short_hint_def)

section \<open>The total count of a page\<close>

text \<open>
  C9. For a non-empty hint list, a call without cursor whose statements fit the
  parameter limit returns a page with a total count, a call with a cursor whose
  statement fits the limit returns a page without one, and no call with a cursor ever
  returns a total count.
\<close>

theorem total_count_first_page_only:
  assumes "hints \<noteq> []"
  shows "(length hints \<le> vmax \<longrightarrow>
            (\<exists>ids nxt n. get_coin_ids_by_hints_paginated vmax d hints page_size None
                = Inr (Page_tuple ids nxt (Some n))))
       \<and> (length hints < vmax \<longrightarrow>
            (\<forall>c. \<exists>ids nxt. get_coin_ids_by_hints_paginated vmax d hints page_size (Some c)
                = Inr (Page_tuple ids nxt None)))
       \<and> (\<forall>c ids nxt t. get_coin_ids_by_hints_paginated vmax d hints page_size (Some c)
                = Inr (Page_tuple ids nxt t) \<longrightarrow> t = None)"
  using assms
  by (auto simp: get_coin_ids_by_hints_paginated_def sql_run_def Let_def split: if_splits)

theorem total_count_first_page_only_witness:
  "[hintA] \<noteq> []
   \<and> get_coin_ids_by_hints_paginated 999 [(id1, hintA), (id2, hintA)] [hintA] 1 None
       = Inr (Page_tuple [id1] (Some id1) (Some 2))
   \<and> get_coin_ids_by_hints_paginated 999 [(id1, hintA), (id2, hintA)] [hintA] 1 (Some id1)
       = Inr (Page_tuple [id2] (Some id2) None)"
  using total_count_first_page_only [of "[hintA]" 999 "[(id1, hintA), (id2, hintA)]" 1]
  by (simp add: get_coin_ids_by_hints_paginated_def sql_run_def select_coin_page_def
      limit_rows_def count_where_hint_in_def after_cursor_def id1_def id2_def hintA_def
      blob_order)

section \<open>The hint dictionary\<close>

lemma dict_of_rows_snoc:
  "dict_of_rows (rows @ [r]) = (dict_of_rows rows)(fst r \<mapsto> snd r)"
  by (simp add: dict_of_rows_def)

lemma dict_of_rows_last:
  "dict_of_rows rows c =
     (if filter (\<lambda>r. fst r = c) rows = [] then None
      else Some (snd (last (filter (\<lambda>r. fst r = c) rows))))"
proof (induction rows rule: rev_induct)
  case Nil
  then show ?case by (simp add: dict_of_rows_def)
next
  case (snoc r rows)
  then show ?case
    by (simp add: dict_of_rows_snoc)
qed

lemma sorted_le_last:
  "sorted xs \<Longrightarrow> x \<in> set xs \<Longrightarrow> x \<le> last (xs :: 'a::linorder list)"
  by (induction xs) auto

lemma short_hint_less: "short_hint < hintA"
proof -
  have a: "short_hint = 7 # replicate 9 7"
    unfolding short_hint_def by (simp add: numeral_eq_Suc)
  have b: "hintA = 170 # (replicate 30 170 @ [1])"
    unfolding hintA_def by (simp add: numeral_eq_Suc)
  have c: "(7 :: 8 word) < 170"
    by simp
  show ?thesis
    unfolding a b using c by simp
qed

lemma short_hint_not_ge: "\<not> hintA \<le> short_hint"
  using short_hint_less by simp

text \<open>
  C3 as stated fails: a stored 10-byte hint is a value of the returned dictionary.
\<close>

theorem hint_dict_keeps_short_hint:
  "get_hints_for_coin_ids 999 [(id2, short_hint)] [id2] = Inr (Dict [id2 \<mapsto> short_hint])
   \<and> length short_hint \<noteq> 32"
  by (simp add: get_hints_for_coin_ids_def sql_run_def select_row_where_coin_in_def
      dict_of_rows_def short_hint_def)

text \<open>
  C3, amended. \<open>get_hints_for_coin_ids\<close> applies no length filter. For a non-empty list
  of item ids that fits the parameter limit it returns the dictionary built from the
  returned rows, a later row overwriting an earlier one, so an item id maps to the hint
  of its last returned row, whatever the length of that hint. The rows are returned in
  \<open>(coin_id, hint)\<close> order, so that hint is the byte-lexicographically greatest stored
  hint of the item id; an item id is a key exactly when it was queried and has a
  stored row.
\<close>

theorem hint_dict_last_row_wins:
  assumes "coin_ids \<noteq> []" "length coin_ids \<le> vmax"
  shows "\<exists>m. get_hints_for_coin_ids vmax d coin_ids = Inr (Dict m)
           \<and> (\<forall>c. m c =
                 (if filter (\<lambda>r. fst r = c) (select_row_where_coin_in d coin_ids) = [] then None
                  else Some (snd (last (filter (\<lambda>r. fst r = c)
                                          (select_row_where_coin_in d coin_ids))))))
           \<and> (\<forall>c h. m c = Some h \<longleftrightarrow>
                 c \<in> set coin_ids \<and> (c, h) \<in> set d \<and> (\<forall>h'. (c, h') \<in> set d \<longrightarrow> h' \<le> h))"
proof -
  let ?rows = "select_row_where_coin_in d coin_ids"
  let ?m = "dict_of_rows ?rows"
  have res: "get_hints_for_coin_ids vmax d coin_ids = Inr (Dict ?m)"
    using assms by (simp add: get_hints_for_coin_ids_def sql_run_def)
  have last_row: "\<forall>c. ?m c =
      (if filter (\<lambda>r. fst r = c) ?rows = [] then None
       else Some (snd (last (filter (\<lambda>r. fst r = c) ?rows))))"
    by (simp add: dict_of_rows_last)
  have set_rows: "set ?rows = {r \<in> set d. fst r \<in> set coin_ids}"
    by (simp add: select_row_where_coin_in_def)
  have sorted_rows: "sorted (filter (\<lambda>r. fst r = c) ?rows)" for c
    by (simp add: select_row_where_coin_in_def sorted_wrt_filter)
  have greatest: "?m c = Some h \<longleftrightarrow>
      c \<in> set coin_ids \<and> (c, h) \<in> set d \<and> (\<forall>h'. (c, h') \<in> set d \<longrightarrow> h' \<le> h)" for c h
  proof
    let ?rc = "filter (\<lambda>r. fst r = c) ?rows"
    assume "?m c = Some h"
    then have ne: "?rc \<noteq> []" and h: "h = snd (last ?rc)"
      using last_row by (auto split: if_splits)
    have "last ?rc \<in> set ?rc"
      using ne by (rule last_in_set)
    then have l: "fst (last ?rc) = c" "last ?rc \<in> set d" "c \<in> set coin_ids"
      using set_rows by auto
    then have lh: "last ?rc = (c, h)"
      using h by (simp add: prod_eq_iff)
    have "h' \<le> h" if "(c, h') \<in> set d" for h'
    proof -
      have "(c, h') \<in> set ?rc"
        using that l(3) set_rows by simp
      then have "(c, h') \<le> last ?rc"
        using sorted_rows by (rule sorted_le_last [rotated])
      then show ?thesis
        unfolding lh by simp
    qed
    then show "c \<in> set coin_ids \<and> (c, h) \<in> set d \<and> (\<forall>h'. (c, h') \<in> set d \<longrightarrow> h' \<le> h)"
      using l lh by auto
  next
    let ?rc = "filter (\<lambda>r. fst r = c) ?rows"
    assume a: "c \<in> set coin_ids \<and> (c, h) \<in> set d \<and> (\<forall>h'. (c, h') \<in> set d \<longrightarrow> h' \<le> h)"
    then have mem: "(c, h) \<in> set ?rc"
      using set_rows by simp
    then have ne: "?rc \<noteq> []"
      by (metis empty_iff empty_set)
    have "last ?rc \<in> set ?rc"
      using ne by (rule last_in_set)
    then have l: "fst (last ?rc) = c" "last ?rc \<in> set d"
      using set_rows by auto
    then have "(c, snd (last ?rc)) \<in> set d"
      by (metis prod.collapse)
    then have up: "snd (last ?rc) \<le> h"
      using a by blast
    have "(c, h) \<le> last ?rc"
      using sorted_rows mem by (rule sorted_le_last)
    then have "(c, h) \<le> (c, snd (last ?rc))"
      using l(1) by (metis prod.collapse)
    then have "h \<le> snd (last ?rc)"
      by simp
    with up have "snd (last ?rc) = h"
      by simp
    then show "?m c = Some h"
      using last_row ne by simp
  qed
  show ?thesis
    by (intro exI [of _ ?m] conjI res last_row allI greatest)
qed

theorem hint_dict_last_row_wins_witness:
  "[id1] \<noteq> [] \<and> length [id1] \<le> (999::nat)
   \<and> get_hints_for_coin_ids 999 [(id1, hintA), (id1, short_hint)] [id1]
       = Inr (Dict [id1 \<mapsto> hintA])
   \<and> get_hints_for_coin_ids 999 [(id1, short_hint), (id1, hintA)] [id1]
       = Inr (Dict [id1 \<mapsto> hintA])
   \<and> get_hints_for_coin_ids 999 [(id1, hintB), (id1, hintA)] [id1]
       = Inr (Dict [id1 \<mapsto> hintB])"
  using hint_dict_last_row_wins [of "[id1]" 999 "[(id1, hintA), (id1, short_hint)]"]
    short_hint_not_ge [unfolded hintA_def] short_hint_less [unfolded hintA_def]
  by (simp add: get_hints_for_coin_ids_def sql_run_def select_row_where_coin_in_def
      dict_of_rows_def hintA_def hintB_def blob_order less_imp_le)

section \<open>The capped multi-hint lookup\<close>

lemma get_coin_ids_multi_eq:
  assumes "0 < mvn" "mvn < vmax" "\<forall>r\<in>set d. length (fst r) = 32"
  shows "get_coin_ids_multi mvn vmax d hints max_items =
     Inr (concat (map (\<lambda>b. limit_rows max_items (select_coin_where_hint_in d b))
                      (batches_of mvn hints)))"
proof -
  have "\<forall>b\<in>set (batches_of mvn hints). length b < vmax"
    using batches_of_bounded [of mvn hints] assms(2) by auto
  then show ?thesis
    using assms(1,3) by (simp add: get_coin_ids_multi_def to_batches_def multi_loop_ok)
qed

lemma length_concat_bounded:
  "\<forall>x\<in>set xs. length (f x) \<le> m \<Longrightarrow> length (concat (map f xs)) \<le> length xs * m"
  by (induction xs) (auto simp: add_mono)

text \<open>
  C4 as stated fails for a negative \<open>max_items\<close>: a negative \<open>LIMIT\<close> is no limit, so
  the query of a chunk returns more than \<open>max_items\<close> rows.
\<close>

theorem negative_max_items_is_no_cap:
  "get_coin_ids_multi 2 3 [(id1, hintA), (id2, hintA)] [hintA] (- 1) = Inr [id1, id2]
   \<and> \<not> int (length [id1, id2]) \<le> - 1"
  by (simp add: get_coin_ids_multi_def to_batches_def batches_of.simps sql_run_def
      select_coin_where_hint_in_def limit_rows_def bytes32_def id1_def id2_def)

text \<open>
  C4, amended. For every \<open>max_items \<ge> 0\<close>, \<open>get_coin_ids_multi\<close> applies \<open>max_items\<close>
  to each chunk: the result is the concatenation over the chunks of the first
  \<open>max_items\<close> rows of each chunk in the order of \<open>hint_index\<close> (hint, then insertion),
  there are \<open>ceil(|hints| / mvn)\<close> chunks, and the whole list has at most
  \<open>max_items + (chunk_count - 1) * max_items\<close> entries. The bound is reached: two
  chunks with \<open>max_items = 1\<close> return two entries.
\<close>

theorem max_items_is_per_chunk:
  assumes "0 < mvn" "mvn < vmax" "\<forall>r\<in>set d. length (fst r) = 32" "0 \<le> max_items"
  shows "\<exists>ids. get_coin_ids_multi mvn vmax d hints max_items = Inr ids
           \<and> ids = concat (map (\<lambda>b. take (nat max_items) (select_coin_where_hint_in d b))
                            (batches_of mvn hints))
           \<and> (\<forall>b\<in>set (batches_of mvn hints).
                 int (length (take (nat max_items) (select_coin_where_hint_in d b))) \<le> max_items)
           \<and> length (batches_of mvn hints) = (length hints + mvn - 1) div mvn
           \<and> int (length ids)
               \<le> max_items + (int (length (batches_of mvn hints)) - 1) * max_items"
proof -
  let ?bs = "batches_of mvn hints"
  let ?f = "\<lambda>b. take (nat max_items) (select_coin_where_hint_in d b)"
  let ?ids = "concat (map ?f ?bs)"
  have lim: "limit_rows max_items = take (nat max_items)"
    using assms(4) by (auto simp: limit_rows_def)
  have "get_coin_ids_multi mvn vmax d hints max_items =
     Inr (concat (map (\<lambda>b. limit_rows max_items (select_coin_where_hint_in d b)) ?bs))"
    using assms(1-3) by (rule get_coin_ids_multi_eq)
  then have eq: "get_coin_ids_multi mvn vmax d hints max_items = Inr ?ids"
    by (simp only: lim)
  have each_nat: "\<forall>b\<in>set ?bs. length (?f b) \<le> nat max_items"
    by simp
  have each: "\<forall>b\<in>set ?bs. int (length (?f b)) \<le> max_items"
    using assms(4) by auto
  have "length ?ids \<le> length ?bs * nat max_items"
    using each_nat by (rule length_concat_bounded)
  then have "int (length ?ids) \<le> int (length ?bs * nat max_items)"
    by (simp only: of_nat_le_iff)
  also have "\<dots> = int (length ?bs) * max_items"
    using assms(4) by simp
  also have "\<dots> = max_items + (int (length ?bs) - 1) * max_items"
    by (simp add: algebra_simps)
  finally have bound: "int (length ?ids) \<le> max_items + (int (length ?bs) - 1) * max_items" .
  have len: "length ?bs = (length hints + mvn - 1) div mvn"
    using assms(1) by (rule batches_of_length)
  show ?thesis
    by (intro exI [of _ ?ids] conjI eq refl each len bound)
qed

theorem max_items_is_per_chunk_witness:
  "(0::nat) < 2 \<and> (2::nat) < 3
   \<and> length id1 = 32 \<and> length id2 = 32 \<and> (0::int) \<le> 1
   \<and> get_coin_ids_multi 2 3 [(id1, hintB), (id2, hintA)] [hintA, hintB] 1 = Inr [id2]
   \<and> get_coin_ids_multi 1 2 [(id1, hintB), (id2, hintA)] [hintA, hintB] 1 = Inr [id2, id1]
   \<and> length (batches_of 1 [hintA, hintB]) = 2
   \<and> int (length [id2, id1]) = 1 + (2 - 1) * 1"
  using max_items_is_per_chunk [of 2 3 "[(id1, hintB), (id2, hintA)]" 1 "[hintA, hintB]"]
  by (simp add: get_coin_ids_multi_def to_batches_def batches_of.simps sql_run_def
      select_coin_where_hint_in_def limit_rows_def bytes32_def id1_def id2_def
      hintA_def hintB_def blob_order)

section \<open>Batched lookup against single lookups\<close>

lemma mset_filter_disj:
  "(\<And>x. \<not> (P x \<and> Q x)) \<Longrightarrow>
   mset (filter (\<lambda>x. P x \<or> Q x) xs) = mset (filter P xs) + mset (filter Q xs)"
  by (induction xs) auto

lemma mset_concat_cong:
  "(\<And>x. x \<in> set xs \<Longrightarrow> mset (f x) = mset (g x)) \<Longrightarrow>
   mset (concat (map f xs)) = mset (concat (map g xs))"
  by (induction xs) auto

lemma concat_map_concat:
  "concat (map (\<lambda>b. concat (map f b)) bs) = concat (map f (concat bs))"
  by (induction bs) auto

lemma length_filter_mono:
  "(\<And>x. P x \<Longrightarrow> Q x) \<Longrightarrow> length (filter P xs) \<le> length (filter Q xs)"
  by (induction xs) auto

lemma filter_in_mset:
  "distinct hs \<Longrightarrow>
   mset (map fst (filter (\<lambda>r. snd r \<in> set hs) d))
     = mset (concat (map (\<lambda>h. map fst (filter (\<lambda>r. snd r = h) d)) hs))"
proof (induction hs)
  case Nil
  then show ?case by simp
next
  case (Cons h hs)
  have disj: "\<And>r. \<not> (snd r = h \<and> snd r \<in> set hs)"
    using Cons.prems by auto
  have "mset (filter (\<lambda>r. snd r = h \<or> snd r \<in> set hs) d)
          = mset (filter (\<lambda>r. snd r = h) d) + mset (filter (\<lambda>r. snd r \<in> set hs) d)"
    using disj by (rule mset_filter_disj)
  then have "image_mset fst (mset (filter (\<lambda>r. snd r = h \<or> snd r \<in> set hs) d))
          = image_mset fst (mset (filter (\<lambda>r. snd r = h) d))
            + image_mset fst (mset (filter (\<lambda>r. snd r \<in> set hs) d))"
    by (simp only: image_mset_union)
  then have step: "mset (map fst (filter (\<lambda>r. snd r = h \<or> snd r \<in> set hs) d))
          = mset (map fst (filter (\<lambda>r. snd r = h) d))
            + mset (map fst (filter (\<lambda>r. snd r \<in> set hs) d))"
    by (simp only: mset_map)
  have ih: "mset (map fst (filter (\<lambda>r. snd r \<in> set hs) d))
      = mset (concat (map (\<lambda>h. map fst (filter (\<lambda>r. snd r = h) d)) hs))"
    using Cons.IH Cons.prems by simp
  have "filter (\<lambda>r. snd r \<in> set (h # hs)) d
      = filter (\<lambda>r. snd r = h \<or> snd r \<in> set hs) d"
    by simp
  then show ?case
    by (simp only: step ih list.map concat.simps mset_append)
qed

lemma select_in_mset:
  "distinct hs \<Longrightarrow>
   mset (select_coin_where_hint_in d hs)
     = mset (concat (map (\<lambda>h. map fst (filter (\<lambda>r. snd r = h) d)) hs))"
  using filter_in_mset [of hs d] by (simp add: select_coin_where_hint_in_def)

lemma batches_of_distinct:
  assumes "0 < n" "distinct xs" "b \<in> set (batches_of n xs)"
  shows "distinct b"
proof -
  have "distinct (concat (batches_of n xs))"
    using assms(1,2) by (simp add: batches_of_concat)
  then show ?thesis
    using assms(3) by (simp add: distinct_concat_iff)
qed

lemma get_coin_ids_eq:
  assumes "2 \<le> vmax" "\<forall>r\<in>set d. length (fst r) = 32"
    and "max_items < 0 \<or> int (length (filter (\<lambda>r. snd r = h) d)) \<le> max_items"
  shows "get_coin_ids vmax d h max_items = Inr (map fst (filter (\<lambda>r. snd r = h) d))"
proof -
  have "\<forall>x\<in>set (map fst (filter (\<lambda>r. snd r = h) d)). length x = 32"
    using assms(2) by auto
  then have "bytes32_all (map fst (filter (\<lambda>r. snd r = h) d)) = Inr (map fst (filter (\<lambda>r. snd r = h) d))"
    by (rule bytes32_all_ok)
  moreover have "limit_rows max_items (select_coin_where_hint_eq d h)
      = map fst (filter (\<lambda>r. snd r = h) d)"
    unfolding select_coin_where_hint_eq_def by (rule limit_rows_all) (use assms(3) in simp)
  ultimately show ?thesis
    using assms(1) by (simp add: get_coin_ids_def sql_run_def)
qed

text \<open>
  C5 as stated fails: an item id stored under two of the hints is returned twice.
\<close>

theorem multi_returns_duplicates:
  "get_coin_ids_multi 1 2 [(id1, hintA), (id1, hintB), (id2, hintC)] [hintA, hintB, hintC] 10
     = Inr [id1, id1, id2]
   \<and> \<not> distinct [id1, id1, id2]"
  by (simp add: get_coin_ids_multi_def to_batches_def batches_of.simps sql_run_def
      select_coin_where_hint_in_def limit_rows_def bytes32_def
      id1_def id2_def hintA_def hintB_def hintC_def)

text \<open>
  C5, amended. For a set of hints (of any size) and a cap that truncates no chunk
  (a negative cap is no cap),
  \<open>get_coin_ids_multi\<close> returns the union of the single-hint lookups of the hints: the
  same set of item ids, none omitted, and each item id once for every hint of the set
  it is stored under (the list is a permutation of the concatenated single lookups).
\<close>

theorem multi_is_union_of_single:
  assumes "0 < mvn" "mvn < vmax" "\<forall>r\<in>set d. length (fst r) = 32" "distinct hints"
    and cap: "\<forall>b\<in>set (batches_of mvn hints).
                max_items < 0 \<or> int (length (select_coin_where_hint_in d b)) \<le> max_items"
  shows "\<exists>ids. get_coin_ids_multi mvn vmax d hints max_items = Inr ids
           \<and> (\<forall>h\<in>set hints. \<exists>xs. get_coin_ids vmax d h max_items = Inr xs)
           \<and> set ids = (\<Union>h\<in>set hints. set (ids_of (get_coin_ids vmax d h max_items)))
           \<and> mset ids = mset (concat (map (\<lambda>h. ids_of (get_coin_ids vmax d h max_items)) hints))"
proof -
  let ?bs = "batches_of mvn hints"
  let ?single = "\<lambda>h. map fst (filter (\<lambda>r. snd r = h) d)"
  let ?ids = "concat (map (\<lambda>b. limit_rows max_items (select_coin_where_hint_in d b)) ?bs)"
  let ?look = "\<lambda>h. ids_of (get_coin_ids vmax d h max_items)"
  have eq: "get_coin_ids_multi mvn vmax d hints max_items = Inr ?ids"
    using assms(1-3) by (rule get_coin_ids_multi_eq)
  have "map (\<lambda>b. limit_rows max_items (select_coin_where_hint_in d b)) ?bs
          = map (\<lambda>b. select_coin_where_hint_in d b) ?bs"
  proof (rule map_cong [OF refl])
    fix b assume "b \<in> set ?bs"
    then have "max_items < 0 \<or> int (length (select_coin_where_hint_in d b)) \<le> max_items"
      using cap by blast
    then show "limit_rows max_items (select_coin_where_hint_in d b)
        = select_coin_where_hint_in d b"
      by (rule limit_rows_all)
  qed
  then have untrunc: "?ids = concat (map (\<lambda>b. select_coin_where_hint_in d b) ?bs)"
    by (rule arg_cong)
  have single: "get_coin_ids vmax d h max_items = Inr (?single h)" if h: "h \<in> set hints" for h
  proof -
    have "h \<in> \<Union> (set ` set ?bs)"
      using h batches_of_Union [OF assms(1), of hints] by simp
    then obtain b where b: "b \<in> set ?bs" "h \<in> set b"
      by blast
    have "length (filter (\<lambda>r. snd r = h) d) \<le> length (filter (\<lambda>r. snd r \<in> set b) d)"
      by (rule length_filter_mono) (use b(2) in simp)
    also have "\<dots> = length (select_coin_where_hint_in d b)"
      by (simp add: select_coin_where_hint_in_def)
    finally have "length (filter (\<lambda>r. snd r = h) d) \<le> length (select_coin_where_hint_in d b)" .
    moreover have "max_items < 0 \<or> int (length (select_coin_where_hint_in d b)) \<le> max_items"
      using cap b(1) by blast
    ultimately have le: "max_items < 0 \<or> int (length (filter (\<lambda>r. snd r = h) d)) \<le> max_items"
      by linarith
    have "2 \<le> vmax"
      using assms(1,2) by simp
    then show ?thesis
      using assms(3) le by (rule get_coin_ids_eq)
  qed
  have lookups: "map ?look hints = map ?single hints"
  proof (rule map_cong [OF refl])
    fix h assume "h \<in> set hints"
    then show "?look h = ?single h"
      by (simp add: single ids_of_def)
  qed
  have "mset (concat (map (\<lambda>b. select_coin_where_hint_in d b) ?bs))
          = mset (concat (map (\<lambda>b. concat (map ?single b)) ?bs))"
  proof (rule mset_concat_cong)
    fix b assume "b \<in> set ?bs"
    then have "distinct b"
      using assms(1,4) by (simp add: batches_of_distinct)
    then show "mset (select_coin_where_hint_in d b) = mset (concat (map ?single b))"
      by (rule select_in_mset)
  qed
  also have "concat (map (\<lambda>b. concat (map ?single b)) ?bs) = concat (map ?single (concat ?bs))"
    by (rule concat_map_concat)
  also have "concat ?bs = hints"
    using assms(1) by (rule batches_of_concat)
  finally have m: "mset ?ids = mset (concat (map ?look hints))"
    by (simp only: lookups untrunc)
  have "set ?ids = set (concat (map ?look hints))"
    using m by (rule mset_eq_setD)
  then have s: "set ?ids = (\<Union>h\<in>set hints. set (?look h))"
    by simp
  have r: "\<forall>h\<in>set hints. \<exists>xs. get_coin_ids vmax d h max_items = Inr xs"
    using single by blast
  show ?thesis
    by (intro exI [of _ ?ids] conjI eq r s m)
qed

theorem multi_is_union_of_single_witness:
  "(0::nat) < 1 \<and> (1::nat) < 2 \<and> length id1 = 32 \<and> length id2 = 32
   \<and> distinct [hintA, hintB, hintC]
   \<and> get_coin_ids_multi 1 2 [(id1, hintA), (id1, hintB), (id2, hintC)] [hintA, hintB, hintC] 10
       = Inr [id1, id1, id2]
   \<and> get_coin_ids 2 [(id1, hintA), (id1, hintB), (id2, hintC)] hintA 10 = Inr [id1]
   \<and> get_coin_ids 2 [(id1, hintA), (id1, hintB), (id2, hintC)] hintB 10 = Inr [id1]
   \<and> get_coin_ids 2 [(id1, hintA), (id1, hintB), (id2, hintC)] hintC 10 = Inr [id2]"
  using multi_is_union_of_single [of 1 2 "[(id1, hintA), (id1, hintB), (id2, hintC)]"
      "[hintA, hintB, hintC]" 10]
  by (simp add: get_coin_ids_multi_def get_coin_ids_def to_batches_def batches_of.simps
      sql_run_def select_coin_where_hint_in_def select_coin_where_hint_eq_def limit_rows_def
      bytes32_def id1_def id2_def hintA_def hintB_def hintC_def)

section \<open>Paging\<close>

lemma paginated_eq:
  assumes "hints \<noteq> []" "length hints < vmax"
  shows "get_coin_ids_by_hints_paginated vmax d hints page_size cur =
     Inr (Page_tuple (select_coin_page d hints cur page_size)
            (if select_coin_page d hints cur page_size = [] then cur
             else Some (last (select_coin_page d hints cur page_size)))
            (case cur of None \<Rightarrow> Some (count_where_hint_in d hints) | Some l \<Rightarrow> None))"
  using assms
  by (cases cur) (simp_all add: get_coin_ids_by_hints_paginated_def sql_run_def Let_def last_conv_nth)

lemma sorted_take_below_rest:
  assumes "sorted (xs :: 'a::linorder list)" "0 < n" "n \<le> length xs"
  shows "\<forall>x\<in>set (take n xs). x \<le> last (take n xs)"
    and "filter (\<lambda>c. last (take n xs) < c) xs = filter (\<lambda>c. last (take n xs) < c) (drop n xs)"
    and "set (take n xs) \<union> set (filter (\<lambda>c. last (take n xs) < c) xs) = set xs"
proof -
  let ?l = "last (take n xs)"
  have st: "sorted (take n xs)"
    using assms(1) by (rule sorted_wrt_take)
  show below: "\<forall>x\<in>set (take n xs). x \<le> ?l"
    using st by (auto intro: sorted_le_last)
  have ne: "take n xs \<noteq> []"
    using assms(2,3) by auto
  then have l_in: "?l \<in> set (take n xs)"
    by (rule last_in_set)
  have split: "xs = take n xs @ drop n xs"
    by simp
  have "filter (\<lambda>c. ?l < c) (take n xs) = []"
    using below by (auto simp: filter_empty_conv)
  then have "filter (\<lambda>c. ?l < c) (take n xs) @ filter (\<lambda>c. ?l < c) (drop n xs)
      = filter (\<lambda>c. ?l < c) (drop n xs)"
    by (simp only: append_Nil)
  then have "filter (\<lambda>c. ?l < c) (take n xs @ drop n xs) = filter (\<lambda>c. ?l < c) (drop n xs)"
    by (simp only: filter_append)
  then show "filter (\<lambda>c. ?l < c) xs = filter (\<lambda>c. ?l < c) (drop n xs)"
    by (simp only: append_take_drop_id)
  have "sorted (take n xs @ drop n xs)"
    using assms(1) by simp
  then have above: "\<forall>y\<in>set (drop n xs). ?l \<le> y"
    using l_in by (auto simp only: sorted_append)
  show "set (take n xs) \<union> set (filter (\<lambda>c. ?l < c) xs) = set xs"
  proof
    show "set (take n xs) \<union> set (filter (\<lambda>c. ?l < c) xs) \<subseteq> set xs"
      by (auto dest: in_set_takeD)
    show "set xs \<subseteq> set (take n xs) \<union> set (filter (\<lambda>c. ?l < c) xs)"
    proof
      fix y assume y: "y \<in> set xs"
      then have "y \<in> set (take n xs) \<or> y \<in> set (drop n xs)"
        using split by (metis Un_iff set_append)
      then show "y \<in> set (take n xs) \<union> set (filter (\<lambda>c. ?l < c) xs)"
      proof
        assume "y \<in> set (take n xs)"
        then show ?thesis by simp
      next
        assume "y \<in> set (drop n xs)"
        then have "?l \<le> y"
          using above by simp
        then have "y = ?l \<or> ?l < y"
          by auto
        then show ?thesis
          using l_in y by auto
      qed
    qed
  qed
qed

lemma rows_after_last:
  assumes "after_cursor cur l"
  shows "sort (map fst (filter (\<lambda>r. snd r \<in> set hs \<and> after_cursor (Some l) (fst r)) d))
       = filter (\<lambda>c. l < c)
           (sort (map fst (filter (\<lambda>r. snd r \<in> set hs \<and> after_cursor cur (fst r)) d)))"
proof -
  have imp: "l < c \<Longrightarrow> after_cursor cur c" for c
    using assms by (cases cur) (auto simp: after_cursor_def)
  have "filter (\<lambda>r. snd r \<in> set hs \<and> after_cursor (Some l) (fst r)) d
      = filter (\<lambda>r. l < fst r) (filter (\<lambda>r. snd r \<in> set hs \<and> after_cursor cur (fst r)) d)"
    using imp by (auto simp: after_cursor_def intro: filter_cong)
  then show ?thesis
    by (simp add: filter_sort filter_map comp_def)
qed

lemma collect_pages_rows:
  assumes "hints \<noteq> []" "length hints < vmax" "0 < page_size"
  shows "length (sort (map fst (filter (\<lambda>r. snd r \<in> set hints \<and> after_cursor cur (fst r)) d)))
           < fuel \<Longrightarrow>
         \<exists>pages. collect_pages fuel vmax d hints page_size cur = Some (Inr pages)
           \<and> set (concat pages)
               = set (sort (map fst (filter (\<lambda>r. snd r \<in> set hints \<and> after_cursor cur (fst r)) d)))
           \<and> sorted (concat pages) \<and> pages_ascending pages"
proof (induction fuel arbitrary: cur)
  case 0
  then show ?case by simp
next
  case (Suc fuel)
  let ?rows = "\<lambda>cur. sort (map fst (filter (\<lambda>r. snd r \<in> set hints \<and> after_cursor cur (fst r)) d))"
  let ?n = "nat page_size"
  let ?ids = "take ?n (?rows cur)"
  have n: "0 < ?n"
    using assms(3) by simp
  have page: "select_coin_page d hints cur page_size = ?ids"
    using assms(3) by (simp add: select_coin_page_def limit_rows_def)
  have call: "get_coin_ids_by_hints_paginated vmax d hints page_size cur =
      Inr (Page_tuple ?ids (if ?ids = [] then cur else Some (last ?ids))
             (case cur of None \<Rightarrow> Some (count_where_hint_in d hints) | Some l \<Rightarrow> None))"
    using paginated_eq [OF assms(1,2), of d page_size cur] by (simp only: page)
  have srt: "sorted (?rows cur)"
    by simp
  show ?case
  proof (cases "int (length ?ids) < page_size")
    case True
    then have "length (?rows cur) < ?n"
      by auto
    then have all: "?ids = ?rows cur"
      by simp
    have "collect_pages (Suc fuel) vmax d hints page_size cur = Some (Inr [?ids])"
      by (simp only: collect_pages.simps call sum.case page_result.case True if_True)
    moreover have "set (concat [?ids]) = set (?rows cur)"
      using all by simp
    moreover have "sorted (concat [?ids])"
      using all srt by simp
    moreover have "pages_ascending [?ids]"
      by simp
    ultimately show ?thesis
      by blast
  next
    case False
    then have full: "?n \<le> length (?rows cur)"
      using assms(3) by auto
    have "length ?ids = ?n"
      using full by (simp only: length_take min_absorb2)
    then have "length ?ids \<noteq> 0"
      using n by simp
    then have ne: "?ids \<noteq> []"
      by (simp only: length_0_conv not_False_eq_True)
    let ?l = "last ?ids"
    have l_in: "?l \<in> set (?rows cur)"
      using ne by (meson in_set_takeD last_in_set)
    then have after: "after_cursor cur ?l"
      by auto
    have next_rows: "?rows (Some ?l) = filter (\<lambda>c. ?l < c) (?rows cur)"
      using after by (rule rows_after_last)
    have below: "\<forall>x\<in>set ?ids. x \<le> ?l"
      using srt n full by (rule sorted_take_below_rest(1))
    have rest: "filter (\<lambda>c. ?l < c) (?rows cur) = filter (\<lambda>c. ?l < c) (drop ?n (?rows cur))"
      using srt n full by (rule sorted_take_below_rest(2))
    have cover: "set ?ids \<union> set (filter (\<lambda>c. ?l < c) (?rows cur)) = set (?rows cur)"
      using srt n full by (rule sorted_take_below_rest(3))
    have "length (?rows (Some ?l)) \<le> length (drop ?n (?rows cur))"
      unfolding next_rows rest by (rule length_filter_le)
    also have "\<dots> = length (?rows cur) - ?n"
      by simp
    also have "\<dots> < fuel"
      using Suc.prems n full by arith
    finally have "length (?rows (Some ?l)) < fuel" .
    then obtain pages where pages:
      "collect_pages fuel vmax d hints page_size (Some ?l) = Some (Inr pages)"
      "set (concat pages) = set (?rows (Some ?l))"
      "sorted (concat pages)" "pages_ascending pages"
      using Suc.IH [of "Some ?l"] by blast
    have above: "\<forall>y\<in>set (concat pages). ?l < y"
      unfolding pages(2) next_rows by simp
    have "collect_pages (Suc fuel) vmax d hints page_size cur = Some (Inr (?ids # pages))"
      by (simp only: collect_pages.simps call sum.case page_result.case False if_False ne
          pages(1) option.case)
    moreover have "set (concat (?ids # pages)) = set (?rows cur)"
      using cover pages(2) next_rows by simp
    moreover have "sorted (concat (?ids # pages))"
    proof -
      have "sorted ?ids"
        using srt by (rule sorted_wrt_take)
      moreover have "\<forall>x\<in>set ?ids. \<forall>y\<in>set (concat pages). x \<le> y"
        using below above by fastforce
      ultimately show ?thesis
        using pages(3) by (simp add: sorted_append)
    qed
    moreover have "pages_ascending (?ids # pages)"
    proof -
      have "\<forall>x\<in>set ?ids. \<forall>y\<in>set (concat pages). x < y"
        using below above by fastforce
      then show ?thesis
        using pages(4) by simp
    qed
    ultimately show ?thesis
      by blast
  qed
qed

lemma collect_pages_all:
  assumes "hints \<noteq> []" "length hints < vmax" "0 < page_size" "length d < fuel"
  shows "\<exists>pages. collect_pages fuel vmax d hints page_size None = Some (Inr pages)
           \<and> set (concat pages) = fst ` {r \<in> set d. snd r \<in> set hints}
           \<and> sorted (concat pages) \<and> pages_ascending pages"
proof -
  have "length (sort (map fst (filter (\<lambda>r. snd r \<in> set hints \<and> after_cursor None (fst r)) d)))
          \<le> length d"
    by simp
  then have "length (sort (map fst (filter (\<lambda>r. snd r \<in> set hints \<and> after_cursor None (fst r)) d)))
          < fuel"
    using assms(4) by (rule le_less_trans)
  then obtain pages where pages:
      "collect_pages fuel vmax d hints page_size None = Some (Inr pages)"
      "set (concat pages)
         = set (sort (map fst (filter (\<lambda>r. snd r \<in> set hints \<and> after_cursor None (fst r)) d)))"
      "sorted (concat pages)" "pages_ascending pages"
    using collect_pages_rows [OF assms(1-3), of None d fuel] by blast
  have "set (concat pages) = fst ` {r \<in> set d. snd r \<in> set hints}"
    unfolding pages(2) by (simp add: after_cursor_def)
  then show ?thesis
    using pages(1,3,4) by blast
qed

lemma multi_all_rows:
  assumes "0 < mvn" "mvn < vmax" "\<forall>r\<in>set d. length (fst r) = 32"
    and "max_items < 0 \<or> int (count_where_hint_in d hints) \<le> max_items"
  shows "\<exists>ids. get_coin_ids_multi mvn vmax d hints max_items = Inr ids
           \<and> set ids = fst ` {r \<in> set d. snd r \<in> set hints}"
proof -
  let ?bs = "batches_of mvn hints"
  let ?ids = "concat (map (\<lambda>b. limit_rows max_items (select_coin_where_hint_in d b)) ?bs)"
  have eq: "get_coin_ids_multi mvn vmax d hints max_items = Inr ?ids"
    using assms(1-3) by (rule get_coin_ids_multi_eq)
  have un: "\<Union> (set ` set ?bs) = set hints"
    using assms(1) by (rule batches_of_Union)
  have "map (\<lambda>b. limit_rows max_items (select_coin_where_hint_in d b)) ?bs
          = map (\<lambda>b. select_coin_where_hint_in d b) ?bs"
  proof (rule map_cong [OF refl])
    fix b assume b: "b \<in> set ?bs"
    then have sub: "set b \<subseteq> set hints"
      using un by blast
    have "length (select_coin_where_hint_in d b) = length (filter (\<lambda>r. snd r \<in> set b) d)"
      by (simp add: select_coin_where_hint_in_def)
    also have "\<dots> \<le> length (filter (\<lambda>r. snd r \<in> set hints) d)"
      by (rule length_filter_mono) (use sub in blast)
    finally have "length (select_coin_where_hint_in d b) \<le> count_where_hint_in d hints"
      by (simp add: count_where_hint_in_def)
    then have "max_items < 0 \<or> int (length (select_coin_where_hint_in d b)) \<le> max_items"
      using assms(4) by linarith
    then show "limit_rows max_items (select_coin_where_hint_in d b)
        = select_coin_where_hint_in d b"
      by (rule limit_rows_all)
  qed
  then have "?ids = concat (map (\<lambda>b. select_coin_where_hint_in d b) ?bs)"
    by (rule arg_cong)
  then have "set ?ids = (\<Union>b\<in>set ?bs. fst ` {r \<in> set d. snd r \<in> set b})"
    by (simp add: set_select_coin_where_hint_in)
  also have "\<dots> = fst ` {r \<in> set d. snd r \<in> \<Union> (set ` set ?bs)}"
    by blast
  also have "\<dots> = fst ` {r \<in> set d. snd r \<in> set hints}"
    by (simp only: un)
  finally show ?thesis
    using eq by blast
qed

text \<open>
  C1 as stated fails: an item id stored under two of the hints is delivered twice, so
  the concatenated pages are not strictly ascending.
\<close>

theorem pagination_repeats_item_id:
  "collect_pages (Suc (Suc (Suc 0))) 999 [(id1, hintA), (id1, hintB)] [hintA, hintB] 10 None
     = Some (Inr [[id1, id1]])
   \<and> \<not> sorted_wrt (<) (concat [[id1, id1]])"
  by (simp add: get_coin_ids_by_hints_paginated_def sql_run_def select_coin_page_def
      count_where_hint_in_def limit_rows_def after_cursor_def Let_def)

text \<open>
  C1, amended. For a non-empty list of hints that fits one statement together with the
  cursor, and every \<open>page_size > 0\<close>, following \<open>next_cursor\<close> from no cursor until a
  page with fewer than \<open>page_size\<close> entries ends after at most one call per stored row
  plus one. The concatenated pages hold exactly the item ids that
  \<open>get_coin_ids_multi\<close> returns for the same hints without a cap (a negative
  \<open>max_items\<close>, or one that is at least the number of matching rows), in ascending
  byte order with repetitions, and every entry of a page is strictly below every entry
  of a later page, so no item id appears in more than one page.
\<close>

theorem pagination_complete:
  assumes "hints \<noteq> []" "length hints < vmax" "0 < page_size" "length d < fuel"
    and "0 < mvn" "mvn < vmax" "\<forall>r\<in>set d. length (fst r) = 32"
    and "max_items < 0 \<or> int (count_where_hint_in d hints) \<le> max_items"
  shows "\<exists>pages ids. collect_pages fuel vmax d hints page_size None = Some (Inr pages)
           \<and> get_coin_ids_multi mvn vmax d hints max_items = Inr ids
           \<and> set (concat pages) = set ids
           \<and> sorted (concat pages)
           \<and> pages_ascending pages"
proof -
  obtain pages where pages:
      "collect_pages fuel vmax d hints page_size None = Some (Inr pages)"
      "set (concat pages) = fst ` {r \<in> set d. snd r \<in> set hints}"
      "sorted (concat pages)" "pages_ascending pages"
    using collect_pages_all [OF assms(1-4)] by blast
  obtain ids where ids:
      "get_coin_ids_multi mvn vmax d hints max_items = Inr ids"
      "set ids = fst ` {r \<in> set d. snd r \<in> set hints}"
    using multi_all_rows [OF assms(5-8)] by blast
  have "set (concat pages) = set ids"
    by (simp only: pages(2) ids(2))
  then show ?thesis
    using pages(1,3,4) ids(1) by blast
qed

theorem pagination_complete_witness:
  "[hintA, hintB] \<noteq> [] \<and> length [hintA, hintB] < (3::nat) \<and> (0::int) < 2
   \<and> length [(id2, hintA), (id1, hintA), (id1, hintB), (id3, hintC)]
       < Suc (Suc (Suc (Suc (Suc 0))))
   \<and> (0::nat) < 2 \<and> (2::nat) < 3
   \<and> length id1 = 32 \<and> length id2 = 32 \<and> length id3 = 32
   \<and> collect_pages (Suc (Suc (Suc (Suc (Suc 0))))) 3
        [(id2, hintA), (id1, hintA), (id1, hintB), (id3, hintC)] [hintA, hintB] 2 None
       = Some (Inr [[id1, id1], [id2]])
   \<and> get_coin_ids_multi 2 3
        [(id2, hintA), (id1, hintA), (id1, hintB), (id3, hintC)] [hintA, hintB] (- 1)
       = Inr [id2, id1, id1]"
  using pagination_complete [of "[hintA, hintB]" 3 2
      "[(id2, hintA), (id1, hintA), (id1, hintB), (id3, hintC)]"
      "Suc (Suc (Suc (Suc (Suc 0))))" 2 "- 1"]
  by (simp add: get_coin_ids_by_hints_paginated_def sql_run_def select_coin_page_def
      count_where_hint_in_def limit_rows_def after_cursor_def Let_def
      get_coin_ids_multi_def to_batches_def batches_of.simps select_coin_where_hint_in_def
      bytes32_def id1_def id2_def id3_def hintA_def hintB_def hintC_def blob_order)

section \<open>The total count against the delivered item ids\<close>

lemma card_fst_image:
  "card (fst ` {r \<in> set d. P r}) \<le> length (filter P d)"
proof -
  have "card (fst ` {r \<in> set d. P r}) \<le> card {r \<in> set d. P r}"
    by (rule card_image_le) simp
  also have "\<dots> = card (set (filter P d))"
    by simp
  also have "\<dots> \<le> length (filter P d)"
    by (rule card_length)
  finally show ?thesis .
qed

lemma card_fst_image_less:
  assumes "(c, h1) \<in> set d" "(c, h2) \<in> set d" "h1 \<noteq> h2" "P (c, h1)" "P (c, h2)"
  shows "card (fst ` {r \<in> set d. P r}) < length (filter P d)"
proof -
  let ?S = "{r \<in> set d. P r}"
  have fin: "finite ?S"
    by simp
  have "\<not> inj_on fst ?S"
    using assms by (auto simp: inj_on_def)
  then have "card (fst ` ?S) \<noteq> card ?S"
    using fin eq_card_imp_inj_on by blast
  moreover have "card (fst ` ?S) \<le> card ?S"
    using fin by (rule card_image_le)
  ultimately have "card (fst ` ?S) < card ?S"
    by simp
  also have "\<dots> = card (set (filter P d))"
    by simp
  also have "\<dots> \<le> length (filter P d)"
    by (rule card_length)
  finally show ?thesis .
qed

text \<open>
  C10. For a non-empty list of hints that fits one statement together with the cursor,
  the \<open>total_count\<close> of the first page is the number of stored rows whose hint is in the
  queried list. The full pagination never delivers more distinct item ids than that,
  and strictly fewer when some item id is stored under two different hints of the list.
\<close>

theorem total_count_counts_rows:
  assumes "hints \<noteq> []" "length hints < vmax" "0 < page_size" "length d < fuel"
  shows "\<exists>ids nxt pages.
           get_coin_ids_by_hints_paginated vmax d hints page_size None
             = Inr (Page_tuple ids nxt (Some (length (filter (\<lambda>r. snd r \<in> set hints) d))))
           \<and> collect_pages fuel vmax d hints page_size None = Some (Inr pages)
           \<and> card (set (concat pages)) \<le> length (filter (\<lambda>r. snd r \<in> set hints) d)
           \<and> ((\<exists>c h1 h2. (c, h1) \<in> set d \<and> (c, h2) \<in> set d \<and> h1 \<noteq> h2
                   \<and> h1 \<in> set hints \<and> h2 \<in> set hints)
                \<longrightarrow> card (set (concat pages)) < length (filter (\<lambda>r. snd r \<in> set hints) d))"
proof -
  obtain pages where pages:
      "collect_pages fuel vmax d hints page_size None = Some (Inr pages)"
      "set (concat pages) = fst ` {r \<in> set d. snd r \<in> set hints}"
    using collect_pages_all [OF assms] by blast
  have first: "get_coin_ids_by_hints_paginated vmax d hints page_size None
      = Inr (Page_tuple (select_coin_page d hints None page_size)
               (if select_coin_page d hints None page_size = [] then None
                else Some (last (select_coin_page d hints None page_size)))
               (Some (length (filter (\<lambda>r. snd r \<in> set hints) d))))"
    using paginated_eq [OF assms(1,2), of d page_size None]
    by (simp add: count_where_hint_in_def)
  have le: "card (set (concat pages)) \<le> length (filter (\<lambda>r. snd r \<in> set hints) d)"
    unfolding pages(2) by (rule card_fst_image)
  have less: "card (set (concat pages)) < length (filter (\<lambda>r. snd r \<in> set hints) d)"
    if "\<exists>c h1 h2. (c, h1) \<in> set d \<and> (c, h2) \<in> set d \<and> h1 \<noteq> h2
          \<and> h1 \<in> set hints \<and> h2 \<in> set hints"
  proof -
    from that obtain c h1 h2 where
      "(c, h1) \<in> set d" "(c, h2) \<in> set d" "h1 \<noteq> h2" "h1 \<in> set hints" "h2 \<in> set hints"
      by blast
    then show ?thesis
      unfolding pages(2)
      by (intro card_fst_image_less [of c h1 d h2 "\<lambda>r. snd r \<in> set hints"]) simp_all
  qed
  show ?thesis
    using first pages(1) le less by blast
qed

theorem total_count_counts_rows_witness:
  "[hintA, hintB] \<noteq> [] \<and> length [hintA, hintB] < (3::nat) \<and> (0::int) < 2
   \<and> length [(id2, hintA), (id1, hintA), (id1, hintB), (id3, hintC)]
       < Suc (Suc (Suc (Suc (Suc 0))))
   \<and> get_coin_ids_by_hints_paginated 3
        [(id2, hintA), (id1, hintA), (id1, hintB), (id3, hintC)] [hintA, hintB] 2 None
       = Inr (Page_tuple [id1, id1] (Some id1) (Some 3))
   \<and> collect_pages (Suc (Suc (Suc (Suc (Suc 0))))) 3
        [(id2, hintA), (id1, hintA), (id1, hintB), (id3, hintC)] [hintA, hintB] 2 None
       = Some (Inr [[id1, id1], [id2]])
   \<and> card (set (concat [[id1, id1], [id2]])) = 2
   \<and> (id1, hintA) \<in> set [(id2, hintA), (id1, hintA), (id1, hintB), (id3, hintC)]
   \<and> (id1, hintB) \<in> set [(id2, hintA), (id1, hintA), (id1, hintB), (id3, hintC)]
   \<and> hintA \<noteq> hintB \<and> hintA \<in> set [hintA, hintB] \<and> hintB \<in> set [hintA, hintB]"
  using total_count_counts_rows [of "[hintA, hintB]" 3 2
      "[(id2, hintA), (id1, hintA), (id1, hintB), (id3, hintC)]"
      "Suc (Suc (Suc (Suc (Suc 0))))"]
  by (simp add: get_coin_ids_by_hints_paginated_def sql_run_def select_coin_page_def
      count_where_hint_in_def limit_rows_def after_cursor_def Let_def
      id1_def id2_def id3_def hintA_def hintB_def hintC_def blob_order)

end
